theory Spec2Isabelle
  imports Main "HOL-Library.Sublist" "HOL-Library.Multiset"
begin

section \<open>Python strings\<close>

text \<open>
  A Python \<open>str\<close> is a sequence of Unicode code points; \<open>len\<close>, \<open>in\<close>, \<open>strip\<close> and
  \<open>startswith\<close> all work on code points.  A code point is a natural number, a string the
  list of its code points.  \<open>ascii\<close> reads an ASCII literal of the source as such a list.
\<close>

type_synonym str = "nat list"

definition ascii :: "string \<Rightarrow> str" where
  "ascii s = map of_char s"

definition NL :: nat where
  "NL = 10"

definition SPACE :: nat where
  "SPACE = 32"

text \<open>\<open>pattern in line\<close>: the pattern occurs as a contiguous run of the line.\<close>

fun contains :: "str \<Rightarrow> str \<Rightarrow> bool" where
  "contains p [] = (p = [])"
| "contains p (c # cs) = (prefix p (c # cs) \<or> contains p cs)"

text \<open>
  The characters that \<open>str.strip()\<close> and \<open>str.lstrip()\<close> remove when called without an
  argument: those for which CPython's \<open>Py_UNICODE_ISSPACE\<close> holds.
\<close>

definition isspace :: "nat \<Rightarrow> bool" where
  "isspace c \<longleftrightarrow>
     (9 \<le> c \<and> c \<le> 13) \<or> (28 \<le> c \<and> c \<le> 32) \<or> c = 133 \<or> c = 160 \<or> c = 5760 \<or>
     (8192 \<le> c \<and> c \<le> 8202) \<or> c = 8232 \<or> c = 8233 \<or> c = 8239 \<or> c = 8287 \<or> c = 12288"

definition lstrip :: "str \<Rightarrow> str" where
  "lstrip s = dropWhile isspace s"

definition rstrip :: "str \<Rightarrow> str" where
  "rstrip s = rev (dropWhile isspace (rev s))"

definition strip :: "str \<Rightarrow> str" where
  "strip s = rstrip (lstrip s)"

definition startswith :: "str \<Rightarrow> str \<Rightarrow> bool" where
  "startswith s p = prefix p s"

section \<open>wrap\_prints.py\<close>

subsection \<open>Constants\<close>

definition PRINT_MARKER :: str where
  "PRINT_MARKER = ascii ''print(''"

definition COMMENT_MARKER :: str where
  "COMMENT_MARKER = ascii ''//''"

definition IF_DEBUG :: str where
  "IF_DEBUG = ascii ''#if DEBUG''"

definition ENDIF :: str where
  "ENDIF = ascii ''#endif''"

text \<open>The third pattern starts with U+274C (cross mark), code point 10060.\<close>

definition PRODUCTION_PATTERNS :: "str list" where
  "PRODUCTION_PATTERNS =
     [ascii ''CRITICAL'', ascii ''FATAL'', 10060 # ascii '' ERROR'', ascii ''App will not function'']"

subsection \<open>The classifier\<close>

definition should_keep_in_production :: "str \<Rightarrow> bool" where
  "should_keep_in_production line = list_ex (\<lambda>pattern. contains pattern line) PRODUCTION_PATTERNS"

text \<open>
  \<open>range(max(0, index - 5), index)\<close> is \<open>[index - 5..<index]\<close>: subtraction on \<open>nat\<close> stops
  at 0.  \<open>range(index + 1, min(len(lines), index + 5))\<close> holds the four indices after
  \<open>index\<close>, as far as the list goes.  Every index read is below \<open>len(lines)\<close> when
  \<open>index\<close> is.
\<close>

definition is_already_wrapped :: "str list \<Rightarrow> nat \<Rightarrow> bool" where
  "is_already_wrapped lines index =
     list_ex (\<lambda>i. contains IF_DEBUG (lines ! i) \<and>
                  list_ex (\<lambda>j. contains ENDIF (lines ! j))
                    [index + 1..<min (length lines) (index + 5)])
       [index - 5..<index]"

text \<open>The test of line 50: the line has a print statement and is not a comment.\<close>

definition is_diagnostic :: "str \<Rightarrow> bool" where
  "is_diagnostic line \<longleftrightarrow>
     contains PRINT_MARKER line \<and> \<not> startswith (strip line) COMMENT_MARKER"

subsection \<open>The rewriting loop of \<open>process_file\<close>\<close>

definition indent_of :: "str \<Rightarrow> nat" where
  "indent_of line = length line - length (lstrip line)"

definition open_guard :: "str \<Rightarrow> str" where
  "open_guard line = replicate (indent_of line) SPACE @ IF_DEBUG @ [NL]"

definition close_guard :: "str \<Rightarrow> str" where
  "close_guard line = replicate (indent_of line) SPACE @ ENDIF @ [NL]"

text \<open>
  The \<open>while\<close> loop, with its three variables \<open>i\<close>, \<open>modified\<close> and \<open>new_lines\<close>.
\<close>

function process_loop :: "str list \<Rightarrow> nat \<Rightarrow> bool \<Rightarrow> str list \<Rightarrow> bool \<times> str list" where
  "process_loop lines i modified new_lines =
     (if i < length lines then
        if is_diagnostic (lines ! i) then
          if is_already_wrapped lines i \<or> should_keep_in_production (lines ! i) then
            process_loop lines (i + 1) modified (new_lines @ [lines ! i])
          else
            process_loop lines (i + 1) True
              (new_lines @ [open_guard (lines ! i), lines ! i, close_guard (lines ! i)])
        else process_loop lines (i + 1) modified (new_lines @ [lines ! i])
      else (modified, new_lines))"
  by pat_completeness auto
termination
  by (relation "measure (\<lambda>(lines, i, modified, new_lines). length lines - i)") auto

declare process_loop.simps [simp del]

text \<open>
  The per-file rewrite without the file I/O: the lines that \<open>process_file\<close> holds in
  \<open>new_lines\<close> when the loop ends.  When \<open>modified\<close> is false nothing is written, and
  \<open>new_lines\<close> equals the lines read (lemma \<open>unmodified_same\<close> below).
\<close>

definition transform :: "str list \<Rightarrow> str list" where
  "transform lines = snd (process_loop lines 0 False [])"

subsection \<open>What one iteration appends\<close>

text \<open>
  \<open>needs_wrap lines i\<close>: iteration \<open>i\<close> takes the branch of lines 57 to 67 (the line is a
  print statement, is not found wrapped and is not kept for production).  \<open>emitted lines i\<close>
  is what that iteration appends to \<open>new_lines\<close>.
\<close>

definition needs_wrap :: "str list \<Rightarrow> nat \<Rightarrow> bool" where
  "needs_wrap lines i \<longleftrightarrow>
     is_diagnostic (lines ! i) \<and>
     \<not> (is_already_wrapped lines i \<or> should_keep_in_production (lines ! i))"

text \<open>
  \<open>wrap_where w op cl xs\<close> replaces every element \<open>x\<close> whose index satisfies \<open>w\<close> by the
  three elements \<open>op x\<close>, \<open>x\<close>, \<open>cl x\<close> and keeps the others.
\<close>

definition chunk :: "(nat \<Rightarrow> bool) \<Rightarrow> ('a \<Rightarrow> 'a) \<Rightarrow> ('a \<Rightarrow> 'a) \<Rightarrow> 'a list \<Rightarrow> nat \<Rightarrow> 'a list" where
  "chunk w op cl xs i = (if w i then [op (xs ! i), xs ! i, cl (xs ! i)] else [xs ! i])"

definition wrap_where :: "(nat \<Rightarrow> bool) \<Rightarrow> ('a \<Rightarrow> 'a) \<Rightarrow> ('a \<Rightarrow> 'a) \<Rightarrow> 'a list \<Rightarrow> 'a list" where
  "wrap_where w op cl xs = concat (map (chunk w op cl xs) [0..<length xs])"

definition emitted :: "str list \<Rightarrow> nat \<Rightarrow> str list" where
  "emitted lines i = chunk (needs_wrap lines) open_guard close_guard lines i"

text \<open>The output for the lines before index \<open>i\<close>, and for those after it.\<close>

definition before :: "str list \<Rightarrow> nat \<Rightarrow> str list" where
  "before lines i = concat (map (emitted lines) [0..<i])"

definition after :: "str list \<Rightarrow> nat \<Rightarrow> str list" where
  "after lines i = concat (map (emitted lines) [Suc i..<length lines])"

subsection \<open>Files and \<open>process_file\<close>\<close>

text \<open>
  \<open>f.readlines()\<close> on a text file: the content cut after every newline, each line keeping
  its newline; only the last line can lack one.  The content is the decoded text, its line
  ends already translated to \<open>\n\<close> by the text layer.
\<close>

fun readlines :: "str \<Rightarrow> str list" where
  "readlines [] = []"
| "readlines (c # cs) =
     (if c = NL then [NL] # readlines cs
      else (case readlines cs of [] \<Rightarrow> [[c]] | l # ls \<Rightarrow> (c # l) # ls))"

type_synonym path = string

datatype exn = OSError | UnicodeDecodeError

text \<open>
  The file system as the two scripts see it.  \<open>read_file p\<close> is what opening and reading
  \<open>p\<close> gives: the text, or the exception raised.  \<open>write_fails p\<close> is the exception that
  opening \<open>p\<close> for writing or writing to it raises, if any, and \<open>torn p\<close> what \<open>p\<close> holds
  after such a failure.
\<close>

record fs =
  root_exists :: bool
  swift_files :: "path list"
  read_file :: "path \<Rightarrow> exn + str"
  write_fails :: "path \<Rightarrow> exn option"
  torn :: "path \<Rightarrow> exn + str"

datatype message =
    NotFound
  | Processing nat
  | Modified path
  | ErrorProcessing path exn
  | ModifiedTotal nat
  | WrappedEstimate nat
  | Found nat
  | Wrapping
  | Complete nat

text \<open>
  What a run does to the outside, in order: \<open>Rglob\<close> is the enumeration of the tree,
  \<open>Read p\<close> an attempt to open and read \<open>p\<close>, \<open>Write p s\<close> an attempt to replace the content
  of \<open>p\<close> by \<open>s\<close>, \<open>Print m\<close> a line on the console.
\<close>

datatype event = Rglob | Read path | Write path str | Print message

text \<open>
  \<open>process_file\<close>: the result is the exception raised or the value returned, with the file
  system afterwards and the events.  \<open>f.writelines(new_lines)\<close> writes the lines one after
  the other with nothing between them.
\<close>

definition process_file :: "path \<Rightarrow> fs \<Rightarrow> (exn + bool) \<times> fs \<times> event list" where
  "process_file filepath w =
     (case read_file w filepath of
        Inl e \<Rightarrow> (Inl e, w, [Read filepath])
      | Inr content \<Rightarrow>
          (case process_loop (readlines content) 0 False [] of
             (modified, new_lines) \<Rightarrow>
               if modified then
                 (case write_fails w filepath of
                    Some e \<Rightarrow>
                      (Inl e, w\<lparr>read_file := (read_file w)(filepath := torn w filepath)\<rparr>,
                       [Read filepath, Write filepath (concat new_lines)])
                  | None \<Rightarrow>
                      (Inr True, w\<lparr>read_file := (read_file w)(filepath := Inr (concat new_lines))\<rparr>,
                       [Read filepath, Write filepath (concat new_lines)]))
               else (Inr False, w, [Read filepath])))"

text \<open>
  The \<open>for\<close> loop of \<open>main\<close> with its \<open>try\<close>: the paths still to do, the file system, the
  list \<open>modified_files\<close>; the result adds the events of the loop.
\<close>

fun main_loop :: "path list \<Rightarrow> fs \<Rightarrow> path list \<Rightarrow> path list \<times> fs \<times> event list" where
  "main_loop [] w modified_files = (modified_files, w, [])"
| "main_loop (filepath # rest) w modified_files =
     (case process_file filepath w of
        (Inr True, w', ev) \<Rightarrow>
          (case main_loop rest w' (modified_files @ [filepath]) of
             (mf, w'', ev') \<Rightarrow> (mf, w'', ev @ [Print (Modified filepath)] @ ev'))
      | (Inr False, w', ev) \<Rightarrow>
          (case main_loop rest w' modified_files of
             (mf, w'', ev') \<Rightarrow> (mf, w'', ev @ ev'))
      | (Inl e, w', ev) \<Rightarrow>
          (case main_loop rest w' modified_files of
             (mf, w'', ev') \<Rightarrow> (mf, w'', ev @ [Print (ErrorProcessing filepath e)] @ ev')))"

definition main :: "fs \<Rightarrow> fs \<times> event list" where
  "main w =
     (if \<not> root_exists w then (w, [Print NotFound])
      else
        (case main_loop (swift_files w) w [] of
           (modified_files, w', ev) \<Rightarrow>
             (w', [Rglob, Print (Processing (length (swift_files w)))] @ ev @
                  [Print (ModifiedTotal (length modified_files)),
                   Print (WrappedEstimate (length modified_files * 3))])))"

section \<open>wrap\_debug\_prints.py\<close>

text \<open>\<open>content.split('\n')\<close> and \<open>'\n'.join(new_lines)\<close>.\<close>

fun split_nl :: "str \<Rightarrow> str list" where
  "split_nl [] = [[]]"
| "split_nl (c # cs) =
     (if c = NL then [] # split_nl cs
      else (case split_nl cs of [] \<Rightarrow> [[c]] | l # ls \<Rightarrow> (c # l) # ls))"

fun join_nl :: "str list \<Rightarrow> str" where
  "join_nl [] = []"
| "join_nl [l] = l"
| "join_nl (l # ls) = l @ NL # join_nl ls"

definition open_guard2 :: "str \<Rightarrow> str" where
  "open_guard2 line = replicate (indent_of line) SPACE @ IF_DEBUG"

definition close_guard2 :: "str \<Rightarrow> str" where
  "close_guard2 line = replicate (indent_of line) SPACE @ ENDIF"

text \<open>
  The \<open>while\<close> loop of \<open>process_swift_file\<close>.  A print statement counts as wrapped when the
  line just before it has the open marker; nothing is exempt.
\<close>

function process_swift_loop :: "str list \<Rightarrow> nat \<Rightarrow> str list \<Rightarrow> str list" where
  "process_swift_loop lines i new_lines =
     (if i < length lines then
        if contains PRINT_MARKER (lines ! i) \<and> \<not> startswith (strip (lines ! i)) COMMENT_MARKER then
          if \<not> (i > 0 \<and> contains IF_DEBUG (lines ! (i - 1))) then
            process_swift_loop lines (i + 1)
              (new_lines @ [open_guard2 (lines ! i), lines ! i, close_guard2 (lines ! i)])
          else process_swift_loop lines (i + 1) (new_lines @ [lines ! i])
        else process_swift_loop lines (i + 1) (new_lines @ [lines ! i])
      else new_lines)"
  by pat_completeness auto
termination
  by (relation "measure (\<lambda>(lines, i, new_lines). length lines - i)") auto

declare process_swift_loop.simps [simp del]

definition transform2 :: "str list \<Rightarrow> str list" where
  "transform2 lines = process_swift_loop lines 0 []"

text \<open>Iteration \<open>i\<close> takes the branch of lines 31 to 40 of this script.\<close>

definition needs_wrap2 :: "str list \<Rightarrow> nat \<Rightarrow> bool" where
  "needs_wrap2 lines i \<longleftrightarrow>
     is_diagnostic (lines ! i) \<and> \<not> (i > 0 \<and> contains IF_DEBUG (lines ! (i - 1)))"

text \<open>
  What one iteration of this loop appends, and the output for the lines before and after
  an index, as for \<open>process_file\<close>.
\<close>

definition emitted2 :: "str list \<Rightarrow> nat \<Rightarrow> str list" where
  "emitted2 lines i = chunk (needs_wrap2 lines) open_guard2 close_guard2 lines i"

definition before2 :: "str list \<Rightarrow> nat \<Rightarrow> str list" where
  "before2 lines i = concat (map (emitted2 lines) [0..<i])"

definition after2 :: "str list \<Rightarrow> nat \<Rightarrow> str list" where
  "after2 lines i = concat (map (emitted2 lines) [Suc i..<length lines])"

text \<open>
  \<open>process_swift_file\<close> reads the whole content, and writes when the lines joined again
  differ from it.
\<close>

definition process_swift_file :: "path \<Rightarrow> fs \<Rightarrow> (exn + bool) \<times> fs \<times> event list" where
  "process_swift_file filepath w =
     (case read_file w filepath of
        Inl e \<Rightarrow> (Inl e, w, [Read filepath])
      | Inr content \<Rightarrow>
          (let new_content = join_nl (process_swift_loop (split_nl content) 0 []) in
           if new_content \<noteq> content then
             (case write_fails w filepath of
                Some e \<Rightarrow>
                  (Inl e, w\<lparr>read_file := (read_file w)(filepath := torn w filepath)\<rparr>,
                   [Read filepath, Write filepath new_content])
              | None \<Rightarrow>
                  (Inr True, w\<lparr>read_file := (read_file w)(filepath := Inr new_content)\<rparr>,
                   [Read filepath, Write filepath new_content]))
           else (Inr False, w, [Read filepath])))"

text \<open>
  The \<open>for\<close> loop of this script's \<open>main\<close> has no \<open>try\<close>: an exception ends the run, and the
  first component of the result is that exception.
\<close>

fun main_loop2 :: "path list \<Rightarrow> fs \<Rightarrow> nat \<Rightarrow> (exn + nat) \<times> fs \<times> event list" where
  "main_loop2 [] w modified_count = (Inr modified_count, w, [])"
| "main_loop2 (filepath # rest) w modified_count =
     (case process_swift_file filepath w of
        (Inr True, w', ev) \<Rightarrow>
          (case main_loop2 rest w' (modified_count + 1) of
             (r, w'', ev') \<Rightarrow> (r, w'', ev @ [Print (Modified filepath)] @ ev'))
      | (Inr False, w', ev) \<Rightarrow>
          (case main_loop2 rest w' modified_count of
             (r, w'', ev') \<Rightarrow> (r, w'', ev @ ev'))
      | (Inl e, w', ev) \<Rightarrow> (Inl e, w', ev))"

definition main2 :: "fs \<Rightarrow> exn option \<times> fs \<times> event list" where
  "main2 w =
     (if \<not> root_exists w then (None, w, [Print NotFound])
      else
        (case main_loop2 (swift_files w) w 0 of
           (Inr modified_count, w', ev) \<Rightarrow>
             (None, w',
              [Rglob, Print (Found (length (swift_files w))), Print Wrapping] @ ev @
              [Print (Complete modified_count)])
         | (Inl e, w', ev) \<Rightarrow>
             (Some e, w',
              [Rglob, Print (Found (length (swift_files w))), Print Wrapping] @ ev)))"

section \<open>Notions of the specification\<close>

text \<open>An exempt line: a diagnostic call with an exemption pattern.\<close>

definition exempt :: "str \<Rightarrow> bool" where
  "exempt line \<longleftrightarrow> is_diagnostic line \<and> should_keep_in_production line"

text \<open>The leading whitespace of a line.\<close>

definition indentation :: "str \<Rightarrow> str" where
  "indentation line = takeWhile isspace line"

text \<open>A line with nothing but a guard marker behind spaces, as \<open>process_file\<close> inserts them.\<close>

definition is_guard_line :: "str \<Rightarrow> bool" where
  "is_guard_line line \<longleftrightarrow>
     dropWhile (\<lambda>c. c = SPACE) line = IF_DEBUG @ [NL] \<or>
     dropWhile (\<lambda>c. c = SPACE) line = ENDIF @ [NL]"

text \<open>The guard lines that \<open>process_file\<close> inserts, in their order.\<close>

definition inserted :: "str list \<Rightarrow> str list" where
  "inserted lines =
     concat (map (\<lambda>i. if needs_wrap lines i then [open_guard (lines ! i), close_guard (lines ! i)]
                        else []) [0..<length lines])"

text \<open>
  The number of guard pairs around line \<open>k\<close>: the open markers before it less the close
  markers before it.
\<close>

definition nesting :: "str list \<Rightarrow> nat \<Rightarrow> int" where
  "nesting lines k =
     int (length (filter (contains IF_DEBUG) (take k lines))) -
     int (length (filter (contains ENDIF) (take k lines)))"

text \<open>
  An open marker among the five lines before \<open>index\<close>; a close marker among the \<open>n\<close> lines
  after it.
\<close>

definition open_behind :: "str list \<Rightarrow> nat \<Rightarrow> bool" where
  "open_behind lines index = list_ex (\<lambda>i. contains IF_DEBUG (lines ! i)) [index - 5..<index]"

definition close_ahead :: "nat \<Rightarrow> str list \<Rightarrow> nat \<Rightarrow> bool" where
  "close_ahead n lines index =
     list_ex (\<lambda>j. contains ENDIF (lines ! j)) [Suc index..<min (length lines) (Suc index + n)]"

text \<open>
  The classification rule in the words of the specification, with its window of five lines
  on both sides: an open marker behind and a close marker ahead, and no diagnostic call
  between either marker and the line.
\<close>

definition spec_wrapped :: "str list \<Rightarrow> nat \<Rightarrow> bool" where
  "spec_wrapped lines index \<longleftrightarrow>
     list_ex (\<lambda>i. contains IF_DEBUG (lines ! i) \<and>
                  list_all (\<lambda>k. \<not> is_diagnostic (lines ! k)) [Suc i..<index])
       [index - 5..<index] \<and>
     list_ex (\<lambda>j. contains ENDIF (lines ! j) \<and>
                  list_all (\<lambda>k. \<not> is_diagnostic (lines ! k)) [Suc index..<j])
       [Suc index..<min (length lines) (Suc index + 5)]"

text \<open>The summary lines of a run, and the paths it reports as failed.\<close>

fun is_summary :: "event \<Rightarrow> bool" where
  "is_summary (Print (ModifiedTotal n)) = True"
| "is_summary (Print (WrappedEstimate n)) = True"
| "is_summary e = False"

definition summary :: "event list \<Rightarrow> event list" where
  "summary ev = filter is_summary ev"

fun is_failure :: "event \<Rightarrow> bool" where
  "is_failure (Print (ErrorProcessing p e)) = True"
| "is_failure e = False"

fun is_modified :: "event \<Rightarrow> bool" where
  "is_modified (Print (Modified p)) = True"
| "is_modified e = False"

text \<open>The parts of a result, and what \<open>main\<close> prints after one file.\<close>

definition report :: "path \<Rightarrow> exn + bool \<Rightarrow> event list" where
  "report p r =
     (case r of Inr True \<Rightarrow> [Print (Modified p)] | Inr False \<Rightarrow> []
      | Inl e \<Rightarrow> [Print (ErrorProcessing p e)])"

definition events_of :: "'a \<times> fs \<times> event list \<Rightarrow> event list" where
  "events_of r = snd (snd r)"

definition fs_of :: "'a \<times> fs \<times> event list \<Rightarrow> fs" where
  "fs_of r = fst (snd r)"

text \<open>
  The run of \<open>process_file\<close> on what a first run of it left: the second run of the tool on
  the same file.
\<close>

definition second_run :: "path \<Rightarrow> fs \<Rightarrow> (exn + bool) \<times> fs \<times> event list" where
  "second_run filepath w = process_file filepath (fs_of (process_file filepath w))"

section \<open>Example inputs\<close>

text \<open>
  File systems: one without the root directory; one whose only file cannot be decoded; one
  whose only file has no print statement; one with a file that cannot be decoded, a file
  that is rewritten, a file without print statement and a file that cannot be written.
\<close>

definition fs0 :: fs where
  "fs0 = \<lparr>root_exists = False, swift_files = [''A.swift''],
          read_file = (\<lambda>p. Inr (ascii ''print(1)'')), write_fails = (\<lambda>p. None),
          torn = (\<lambda>p. Inl OSError)\<rparr>"

definition fs_failing :: fs where
  "fs_failing = \<lparr>root_exists = True, swift_files = [''A.swift''],
     read_file = (\<lambda>p. Inl UnicodeDecodeError), write_fails = (\<lambda>p. None),
     torn = (\<lambda>p. Inl OSError)\<rparr>"

definition fs_plain :: fs where
  "fs_plain = \<lparr>root_exists = True, swift_files = [''A.swift''],
     read_file = (\<lambda>p. Inr (ascii ''let x = 1\<newline>'')), write_fails = (\<lambda>p. None),
     torn = (\<lambda>p. Inl OSError)\<rparr>"

definition fs_mixed :: fs where
  "fs_mixed = \<lparr>root_exists = True,
     swift_files = [''A.swift'', ''B.swift'', ''C.swift'', ''D.swift''],
     read_file = (\<lambda>p. if p = ''A.swift'' then Inl UnicodeDecodeError
                        else if p = ''C.swift'' then Inr (ascii ''let x = 1\<newline>'')
                        else Inr (ascii ''print(x)\<newline>'')),
     write_fails = (\<lambda>p. if p = ''D.swift'' then Some OSError else None),
     torn = (\<lambda>p. Inr [])\<rparr>"

text \<open>A print statement indented by a tab.\<close>

definition tab_line :: str where
  "tab_line = 9 # ascii ''print(x)\<newline>''"

text \<open>
  A print statement between two guarded ones, and a guard block of five lines with two
  print statements.
\<close>

definition lines_between :: "str list" where
  "lines_between =
     [ascii ''#if DEBUG\<newline>'', ascii ''print(a)\<newline>'', ascii ''#endif\<newline>'',
      ascii ''print(b)\<newline>'',
      ascii ''#if DEBUG\<newline>'', ascii ''print(c)\<newline>'', ascii ''#endif\<newline>'']"

definition lines_block :: "str list" where
  "lines_block =
     [ascii ''#if DEBUG\<newline>'', ascii ''print(y)\<newline>'', ascii ''a()\<newline>'',
      ascii ''b()\<newline>'', ascii ''c()\<newline>'', ascii ''print(x)\<newline>'',
      ascii ''#endif\<newline>'']"

text \<open>A file with an exempt line between two other print statements.\<close>

definition lines_exempt :: "str list" where
  "lines_exempt =
     [ascii ''print(a)\<newline>'', ascii ''  print(CRITICAL)\<newline>'', ascii ''let x = 1\<newline>'',
      ascii ''// print(c)\<newline>'']"

definition lines_exempt_out :: "str list" where
  "lines_exempt_out =
     [ascii ''#if DEBUG\<newline>'', ascii ''print(a)\<newline>'', ascii ''#endif\<newline>'',
      ascii ''  print(CRITICAL)\<newline>'', ascii ''let x = 1\<newline>'', ascii ''// print(c)\<newline>'']"

text \<open>A file system whose only file ends in a print statement without newline.\<close>

definition fs_no_newline :: fs where
  "fs_no_newline = \<lparr>root_exists = True, swift_files = [''A.swift''],
     read_file = (\<lambda>p. Inr (ascii ''let x = 1\<newline>  print(x)'')), write_fails = (\<lambda>p. None),
     torn = (\<lambda>p. Inl OSError)\<rparr>"

text \<open>\<open>lines_block\<close> after one run and after two runs.\<close>

definition lines_block_once :: "str list" where
  "lines_block_once =
     [ascii ''#if DEBUG\<newline>'',
      ascii ''#if DEBUG\<newline>'', ascii ''print(y)\<newline>'', ascii ''#endif\<newline>'',
      ascii ''a()\<newline>'', ascii ''b()\<newline>'', ascii ''c()\<newline>'', ascii ''print(x)\<newline>'',
      ascii ''#endif\<newline>'']"

definition lines_block_twice :: "str list" where
  "lines_block_twice =
     [ascii ''#if DEBUG\<newline>'',
      ascii ''#if DEBUG\<newline>'', ascii ''print(y)\<newline>'', ascii ''#endif\<newline>'',
      ascii ''a()\<newline>'', ascii ''b()\<newline>'', ascii ''c()\<newline>'',
      ascii ''#if DEBUG\<newline>'', ascii ''print(x)\<newline>'', ascii ''#endif\<newline>'',
      ascii ''#endif\<newline>'']"

text \<open>A guard block with a call before the print statement, as \<open>split\<close> gives its lines.\<close>

definition lines_block2 :: "str list" where
  "lines_block2 = [ascii ''#if DEBUG'', ascii ''a()'', ascii ''print(x)'', ascii ''#endif'']"

text \<open>A file system with one file of the given content, readable and writable.\<close>

definition fs_with :: "str \<Rightarrow> fs" where
  "fs_with content = \<lparr>root_exists = True, swift_files = [''A.swift''],
     read_file = (\<lambda>p. Inr content), write_fails = (\<lambda>p. None), torn = (\<lambda>p. Inl OSError)\<rparr>"

text \<open>
  The lines of the file \<open>let x = 1\n  print(x)\<close>, without newline at its end; the lines
  that the first run writes; the lines that the second run reads; the lines that it writes.
\<close>

definition lines_no_newline :: "str list" where
  "lines_no_newline = [ascii ''let x = 1\<newline>'', ascii ''  print(x)'']"

definition lines_no_newline_new :: "str list" where
  "lines_no_newline_new =
     [ascii ''let x = 1\<newline>'', ascii ''  #if DEBUG\<newline>'', ascii ''  print(x)'',
      ascii ''  #endif\<newline>'']"

definition lines_no_newline_once :: "str list" where
  "lines_no_newline_once =
     [ascii ''let x = 1\<newline>'', ascii ''  #if DEBUG\<newline>'', ascii ''  print(x)  #endif\<newline>'']"

definition lines_no_newline_twice :: "str list" where
  "lines_no_newline_twice =
     [ascii ''let x = 1\<newline>'', ascii ''  #if DEBUG\<newline>'', ascii ''  #if DEBUG\<newline>'',
      ascii ''  print(x)  #endif\<newline>'', ascii ''  #endif\<newline>'']"

text \<open>\<open>lines_block2\<close> after one run of \<open>process_swift_file\<close>.\<close>

definition lines_block2_once :: "str list" where
  "lines_block2_once =
     [ascii ''#if DEBUG'', ascii ''a()'', ascii ''#if DEBUG'', ascii ''print(x)'', ascii ''#endif'',
      ascii ''#endif'']"

section \<open>The loop and its result\<close>

lemma process_loop_step:
  assumes "i < length lines"
  shows "process_loop lines i modified new_lines =
    process_loop lines (Suc i) (modified \<or> needs_wrap lines i) (new_lines @ emitted lines i)"
  using assms
  by (subst process_loop.simps) (simp add: needs_wrap_def emitted_def chunk_def)

lemma process_loop_done:
  "length lines \<le> i \<Longrightarrow> process_loop lines i modified new_lines = (modified, new_lines)"
  by (subst process_loop.simps) simp

lemma process_loop_eq:
  "i \<le> length lines \<Longrightarrow>
   process_loop lines i modified new_lines =
     (modified \<or> list_ex (needs_wrap lines) [i..<length lines],
      new_lines @ concat (map (emitted lines) [i..<length lines]))"
proof (induction "length lines - i" arbitrary: i modified new_lines)
  case 0
  then show ?case by (simp add: process_loop_done)
next
  case (Suc d)
  then have lt: "i < length lines" and d: "d = length lines - Suc i" by simp_all
  have "process_loop lines (Suc i) (modified \<or> needs_wrap lines i) (new_lines @ emitted lines i) =
      ((modified \<or> needs_wrap lines i) \<or> list_ex (needs_wrap lines) [Suc i..<length lines],
       (new_lines @ emitted lines i) @ concat (map (emitted lines) [Suc i..<length lines]))"
    using Suc.hyps(1) [OF d] lt by simp
  then show ?case
    using lt by (simp add: process_loop_step upt_conv_Cons)
qed

lemma transform_wrap_where:
  "transform lines = wrap_where (needs_wrap lines) open_guard close_guard lines"
  by (simp add: transform_def process_loop_eq wrap_where_def emitted_def [abs_def])

lemma transform_emitted:
  "transform lines = concat (map (emitted lines) [0..<length lines])"
  by (simp add: transform_def process_loop_eq)

lemma modified_iff:
  "fst (process_loop lines 0 False []) \<longleftrightarrow> list_ex (needs_wrap lines) [0..<length lines]"
  by (simp add: process_loop_eq)

lemma concat_singletons: "concat (map (\<lambda>i. [xs ! i]) [0..<length xs]) = xs"
proof -
  have "concat (map (\<lambda>i. [xs ! i]) [0..<length xs]) = map (\<lambda>i. xs ! i) [0..<length xs]"
    by (induction "[0..<length xs]") (simp_all add: concat_map_singleton)
  then show ?thesis by (simp add: map_nth)
qed

lemma wrap_where_fixed:
  assumes "\<And>i. i < length xs \<Longrightarrow> \<not> w i"
  shows "wrap_where w op cl xs = xs"
proof -
  have "map (chunk w op cl xs) [0..<length xs] = map (\<lambda>i. [xs ! i]) [0..<length xs]"
    using assms by (simp add: chunk_def)
  then show ?thesis unfolding wrap_where_def by (simp only: concat_singletons)
qed

section \<open>Substrings and the guard lines\<close>

lemma contains_iff: "contains p s \<longleftrightarrow> (\<exists>a b. s = a @ p @ b)"
proof (induction s)
  case Nil
  then show ?case by auto
next
  case (Cons c cs)
  show ?case
  proof
    assume "contains p (c # cs)"
    then consider "prefix p (c # cs)" | "contains p cs" by auto
    then show "\<exists>a b. c # cs = a @ p @ b"
    proof cases
      case 1
      then obtain b where "c # cs = p @ b" by (auto simp: prefix_def)
      then have "c # cs = [] @ p @ b" by simp
      then show ?thesis by blast
    next
      case 2
      then obtain a b where "cs = a @ p @ b" using Cons.IH by blast
      then have "c # cs = (c # a) @ p @ b" by simp
      then show ?thesis by blast
    qed
  next
    assume "\<exists>a b. c # cs = a @ p @ b"
    then obtain a b where ab: "c # cs = a @ p @ b" by blast
    show "contains p (c # cs)"
    proof (cases a)
      case Nil
      then have "prefix p (c # cs)" using ab by (simp add: prefix_def)
      then show ?thesis by simp
    next
      case (Cons x a')
      then have "cs = a' @ p @ b" using ab by simp
      then have "contains p cs" using Cons.IH by blast
      then show ?thesis by simp
    qed
  qed
qed

lemma contains_middle: "contains p (a @ p @ b)"
  by (auto simp: contains_iff)

lemma contains_skip:
  assumes "p \<noteq> []" and "hd p \<noteq> c"
  shows "contains p (replicate n c @ s) = contains p s"
proof (induction n)
  case 0
  then show ?case by simp
next
  case (Suc n)
  have "\<not> prefix p (c # replicate n c @ s)"
    using assms by (cases p) simp_all
  then show ?case using Suc by simp
qed

lemma replicate_numeral_Cons: "replicate (numeral k) x = x # replicate (pred_numeral k) x"
  by (simp add: numeral_eq_Suc)

lemmas string_defs =
  ascii_def NL_def SPACE_def PRINT_MARKER_def COMMENT_MARKER_def IF_DEBUG_def ENDIF_def
  PRODUCTION_PATTERNS_def

lemmas classifier_defs =
  isspace_def lstrip_def rstrip_def strip_def startswith_def should_keep_in_production_def
  is_already_wrapped_def is_diagnostic_def indent_of_def open_guard_def close_guard_def
  needs_wrap_def chunk_def emitted_def

lemma open_guard_has_open: "contains IF_DEBUG (open_guard l)"
  unfolding open_guard_def by (rule contains_middle)

lemma close_guard_has_close: "contains ENDIF (close_guard l)"
  unfolding close_guard_def by (rule contains_middle)

lemma open_guard_no_close: "\<not> contains ENDIF (open_guard l)"
  unfolding open_guard_def
  by (subst contains_skip) (simp_all add: string_defs)

lemma close_guard_no_open: "\<not> contains IF_DEBUG (close_guard l)"
  unfolding close_guard_def
  by (subst contains_skip) (simp_all add: string_defs)

lemma open_guard_no_print: "\<not> contains PRINT_MARKER (open_guard l)"
  unfolding open_guard_def
  by (subst contains_skip) (simp_all add: string_defs)

lemma close_guard_no_print: "\<not> contains PRINT_MARKER (close_guard l)"
  unfolding close_guard_def
  by (subst contains_skip) (simp_all add: string_defs)

lemma guards_not_diagnostic:
  "\<not> is_diagnostic (open_guard l)" "\<not> is_diagnostic (close_guard l)"
  by (simp_all add: is_diagnostic_def open_guard_no_print close_guard_no_print)

section \<open>The run over the files\<close>

lemma process_file_events:
  "events_of (process_file p w) = [Read p] \<or>
   (\<exists>c. events_of (process_file p w) = [Read p, Write p c])"
  by (auto simp: process_file_def events_of_def split: sum.splits prod.splits option.splits)

lemma process_file_fs:
  "write_fails (fs_of (process_file p w)) = write_fails w"
  "q \<noteq> p \<Longrightarrow> read_file (fs_of (process_file p w)) q = read_file w q"
  "read_file w p = Inl e \<Longrightarrow> process_file p w = (Inl e, w, [Read p])"
  by (auto simp: process_file_def fs_of_def split: sum.splits prod.splits option.splits)

lemma process_file_write_fails:
  "Write q c \<in> set (events_of (process_file p w)) \<Longrightarrow> write_fails w q = Some e \<Longrightarrow>
   fst (process_file p w) = Inl e"
  by (auto simp: process_file_def events_of_def split: sum.splits prod.splits option.splits if_splits)

lemma main_loop_Cons:
  "events_of (main_loop (p # rest) w mf) =
     events_of (process_file p w) @ report p (fst (process_file p w)) @
     events_of (main_loop rest (fs_of (process_file p w))
        (if fst (process_file p w) = Inr True then mf @ [p] else mf))"
  "fst (main_loop (p # rest) w mf) =
     fst (main_loop rest (fs_of (process_file p w))
        (if fst (process_file p w) = Inr True then mf @ [p] else mf))"
  by (auto simp: events_of_def fs_of_def report_def split: sum.splits prod.splits bool.splits)

declare main_loop.simps(2) [simp del]

lemma main_loop_reads: "p \<in> set ps \<Longrightarrow> Read p \<in> set (events_of (main_loop ps w mf))"
proof (induction ps arbitrary: w mf)
  case Nil
  then show ?case by simp
next
  case (Cons q ps)
  show ?case
  proof (cases "p = q")
    case True
    then show ?thesis
      using process_file_events [of q w] by (auto simp: main_loop_Cons)
  next
    case False
    then show ?thesis using Cons by (simp add: main_loop_Cons)
  qed
qed

lemma main_loop_read_errors:
  "p \<in> set ps \<Longrightarrow> read_file w p = Inl e \<Longrightarrow>
   Print (ErrorProcessing p e) \<in> set (events_of (main_loop ps w mf))"
proof (induction ps arbitrary: w mf)
  case Nil
  then show ?case by simp
next
  case (Cons q ps)
  show ?case
  proof (cases "p = q")
    case True
    then show ?thesis
      using Cons.prems(2) by (simp add: main_loop_Cons process_file_fs(3) report_def)
  next
    case False
    then have "read_file (fs_of (process_file q w)) p = Inl e"
      using Cons.prems(2) by (simp add: process_file_fs(2))
    then show ?thesis using Cons False by (simp add: main_loop_Cons)
  qed
qed

lemma main_loop_write_errors:
  "Write p c \<in> set (events_of (main_loop ps w mf)) \<Longrightarrow> write_fails w p = Some e \<Longrightarrow>
   Print (ErrorProcessing p e) \<in> set (events_of (main_loop ps w mf))"
proof (induction ps arbitrary: w mf)
  case Nil
  then show ?case by (simp add: events_of_def)
next
  case (Cons q ps)
  let ?r = "process_file q w"
  let ?mf = "if fst ?r = Inr True then mf @ [q] else mf"
  from Cons.prems(1) consider
      (now) "Write p c \<in> set (events_of ?r)"
    | (rep) "Write p c \<in> set (report q (fst ?r))"
    | (later) "Write p c \<in> set (events_of (main_loop ps (fs_of ?r) ?mf))"
    by (auto simp: main_loop_Cons)
  then show ?case
  proof cases
    case now
    then have "p = q" using process_file_events [of q w] by auto
    moreover have "fst ?r = Inl e"
      using process_file_write_fails [OF now Cons.prems(2)] .
    ultimately show ?thesis by (simp add: main_loop_Cons report_def)
  next
    case rep
    then show ?thesis by (auto simp: report_def split: sum.splits bool.splits)
  next
    case later
    have "write_fails (fs_of ?r) p = Some e"
      using Cons.prems(2) by (simp add: process_file_fs(1))
    from Cons.IH [OF later this] show ?thesis by (simp add: main_loop_Cons)
  qed
qed

lemma main_loop_counts:
  "filter is_summary (events_of (main_loop ps w mf)) = [] \<and>
   length (fst (main_loop ps w mf)) =
     length mf + length (filter is_modified (events_of (main_loop ps w mf)))"
proof (induction ps arbitrary: w mf)
  case Nil
  then show ?case by (simp add: events_of_def)
next
  case (Cons q ps)
  have ev: "filter is_summary (events_of (process_file q w)) = []"
    "filter is_modified (events_of (process_file q w)) = []"
    using process_file_events [of q w] by auto
  have rep: "filter is_summary (report q r) = []"
    "length (filter is_modified (report q r)) = (if r = Inr True then 1 else 0)" for r
    by (auto simp: report_def split: sum.splits bool.splits)
  show ?case
    using Cons [of "fs_of (process_file q w)"] ev rep
    by (simp add: main_loop_Cons)
qed

lemmas run_defs = main_def process_file_def process_loop_eq events_of_def fs_of_def
  summary_def main_loop.simps(2)

lemma main_fs_mixed:
  "snd (main fs_mixed) =
    [Rglob, Print (Processing 4),
     Read ''A.swift'', Print (ErrorProcessing ''A.swift'' UnicodeDecodeError),
     Read ''B.swift'',
     Write ''B.swift'' (ascii ''#if DEBUG\<newline>print(x)\<newline>#endif\<newline>''),
     Print (Modified ''B.swift''),
     Read ''C.swift'',
     Read ''D.swift'',
     Write ''D.swift'' (ascii ''#if DEBUG\<newline>print(x)\<newline>#endif\<newline>''),
     Print (ErrorProcessing ''D.swift'' OSError),
     Print (ModifiedTotal 1), Print (WrappedEstimate 3)]"
  by (simp add: fs_mixed_def run_defs string_defs classifier_defs)

section \<open>More on the loops\<close>

lemma wrap_where_split:
  assumes "i < length xs"
  shows "wrap_where w op cl xs =
    concat (map (chunk w op cl xs) [0..<i]) @ chunk w op cl xs i @
    concat (map (chunk w op cl xs) [Suc i..<length xs])"
proof -
  have "[0..<length xs] = [0..<i] @ i # [Suc i..<length xs]"
    using assms by (metis le_add1 less_imp_add_positive upt_add_eq_append upt_conv_Cons add_0)
  then show ?thesis by (simp add: wrap_where_def)
qed

lemma transform_split:
  assumes "i < length lines"
  shows "transform lines = before lines i @ emitted lines i @ after lines i"
  using wrap_where_split [OF assms, of "needs_wrap lines" open_guard close_guard]
  by (simp add: transform_wrap_where before_def after_def emitted_def [abs_def])

lemma process_swift_loop_step:
  assumes "i < length lines"
  shows "process_swift_loop lines i new_lines =
    process_swift_loop lines (Suc i) (new_lines @ emitted2 lines i)"
  using assms
  by (subst process_swift_loop.simps)
     (simp add: needs_wrap2_def emitted2_def chunk_def is_diagnostic_def)

lemma process_swift_loop_done:
  "length lines \<le> i \<Longrightarrow> process_swift_loop lines i new_lines = new_lines"
  by (subst process_swift_loop.simps) simp

lemma process_swift_loop_eq:
  "i \<le> length lines \<Longrightarrow>
   process_swift_loop lines i new_lines =
     new_lines @ concat (map (emitted2 lines) [i..<length lines])"
proof (induction "length lines - i" arbitrary: i new_lines)
  case 0
  then show ?case by (simp add: process_swift_loop_done)
next
  case (Suc d)
  then have lt: "i < length lines" and d: "d = length lines - Suc i" by simp_all
  have "process_swift_loop lines (Suc i) (new_lines @ emitted2 lines i) =
      (new_lines @ emitted2 lines i) @ concat (map (emitted2 lines) [Suc i..<length lines])"
    using Suc.hyps(1) [OF d] lt by simp
  then show ?case
    using lt by (simp add: process_swift_loop_step upt_conv_Cons)
qed

lemma transform2_wrap_where:
  "transform2 lines = wrap_where (needs_wrap2 lines) open_guard2 close_guard2 lines"
  by (simp add: transform2_def process_swift_loop_eq wrap_where_def emitted2_def [abs_def])

lemma transform2_split:
  assumes "i < length lines"
  shows "transform2 lines = before2 lines i @ emitted2 lines i @ after2 lines i"
  using wrap_where_split [OF assms, of "needs_wrap2 lines" open_guard2 close_guard2]
  by (simp add: transform2_wrap_where before2_def after2_def emitted2_def [abs_def])

section \<open>Indentation\<close>

lemma indent_of_takeWhile: "indent_of line = length (takeWhile isspace line)"
proof -
  have "length line = length (takeWhile isspace line) + length (dropWhile isspace line)"
    by (metis length_append takeWhile_dropWhile_id)
  then show ?thesis by (simp add: indent_of_def lstrip_def)
qed

lemma indentation_spaces:
  assumes "m \<noteq> []" and "\<not> isspace (hd m)"
  shows "indentation (replicate n SPACE @ m @ r) = replicate n SPACE"
proof -
  have sp: "isspace SPACE"
    by (simp add: isspace_def SPACE_def)
  have "takeWhile isspace (m @ r) = []"
    using assms by (cases m) simp_all
  then have "takeWhile isspace (replicate n SPACE @ m @ r) = replicate n SPACE"
    using sp by (induction n) simp_all
  then show ?thesis by (simp add: indentation_def)
qed

lemma guard_indentation:
  "indentation (open_guard l) = replicate (length (indentation l)) SPACE"
  "indentation (close_guard l) = replicate (length (indentation l)) SPACE"
  "indentation (open_guard2 l) = replicate (length (indentation l)) SPACE"
  "indentation (close_guard2 l) = replicate (length (indentation l)) SPACE"
proof -
  have m: "IF_DEBUG \<noteq> []" "\<not> isspace (hd IF_DEBUG)" "ENDIF \<noteq> []" "\<not> isspace (hd ENDIF)"
    by (simp_all add: string_defs isspace_def)
  have n: "indent_of l = length (indentation l)"
    by (simp add: indent_of_takeWhile indentation_def)
  show "indentation (open_guard l) = replicate (length (indentation l)) SPACE"
    using indentation_spaces [OF m(1,2)] by (simp add: open_guard_def n)
  show "indentation (close_guard l) = replicate (length (indentation l)) SPACE"
    using indentation_spaces [OF m(3,4)] by (simp add: close_guard_def n)
  show "indentation (open_guard2 l) = replicate (length (indentation l)) SPACE"
    using indentation_spaces [OF m(1,2), of _ "[]"] by (simp add: open_guard2_def n)
  show "indentation (close_guard2 l) = replicate (length (indentation l)) SPACE"
    using indentation_spaces [OF m(3,4), of _ "[]"] by (simp add: close_guard2_def n)
qed

lemma replicate_all_same: "set xs \<subseteq> {c} \<Longrightarrow> replicate (length xs) c = xs"
  by (induction xs) auto

lemmas more_defs = indentation_def needs_wrap2_def emitted2_def open_guard2_def close_guard2_def
  before_def after_def before2_def after2_def tab_line_def

section \<open>The classifier's windows\<close>

lemma is_already_wrapped_iff:
  "is_already_wrapped lines i \<longleftrightarrow> open_behind lines i \<and> close_ahead 4 lines i"
  by (auto simp: is_already_wrapped_def open_behind_def close_ahead_def list_ex_iff)

lemmas example_defs = lines_between_def lines_block_def upt_conv_Cons

section \<open>What the rewriting keeps\<close>

lemma filter_wrap_where:
  assumes "\<And>x. \<not> P (op x)" and "\<And>x. \<not> P (cl x)"
  shows "filter P (wrap_where w op cl xs) = filter P xs"
proof -
  have "filter P (chunk w op cl xs i) = filter P [xs ! i]" for i
    using assms by (simp add: chunk_def)
  then have "filter P (concat (map (chunk w op cl xs) js)) =
      filter P (concat (map (\<lambda>i. [xs ! i]) js))" for js
    by (induction js) simp_all
  then show ?thesis
    unfolding wrap_where_def by (simp only: concat_singletons)
qed

lemma shuffles_wrap_where:
  "concat (map (chunk w op cl xs) js) \<in>
     shuffles (map (\<lambda>i. xs ! i) js)
       (concat (map (\<lambda>i. if w i then [op (xs ! i), cl (xs ! i)] else []) js))"
proof (induction js)
  case Nil
  then show ?case by simp
next
  case (Cons j js)
  show ?case
  proof (cases "w j")
    case True
    then show ?thesis
      using Cons
      by (simp add: chunk_def Cons_in_shuffles_leftI Cons_in_shuffles_rightI)
  next
    case False
    then show ?thesis
      using Cons by (simp add: chunk_def Cons_in_shuffles_leftI)
  qed
qed

lemma transform_shuffles: "transform lines \<in> shuffles lines (inserted lines)"
  using shuffles_wrap_where [of "needs_wrap lines" open_guard close_guard lines "[0..<length lines]"]
  by (simp add: transform_wrap_where wrap_where_def inserted_def map_nth)

lemma dropWhile_spaces:
  assumes "m \<noteq> []" and "hd m \<noteq> SPACE"
  shows "dropWhile (\<lambda>c. c = SPACE) (replicate n SPACE @ m) = m"
  using assms by (induction n) (simp_all add: dropWhile_eq_self_iff)

lemma guards_are_guard_lines: "is_guard_line (open_guard l)" "is_guard_line (close_guard l)"
proof -
  have "IF_DEBUG @ [NL] \<noteq> []" "hd (IF_DEBUG @ [NL]) \<noteq> SPACE"
    "ENDIF @ [NL] \<noteq> []" "hd (ENDIF @ [NL]) \<noteq> SPACE"
    by (simp_all add: string_defs)
  then show "is_guard_line (open_guard l)" "is_guard_line (close_guard l)"
    by (simp_all only: is_guard_line_def open_guard_def close_guard_def dropWhile_spaces simp_thms)
qed

lemma inserted_guard_lines: "list_all is_guard_line (inserted lines)"
  by (auto simp: inserted_def list_all_iff guards_are_guard_lines)

lemma inserted_not_diagnostic: "filter (\<lambda>l. \<not> is_diagnostic l) (inserted lines) = inserted lines"
  by (auto simp: inserted_def guards_not_diagnostic)

lemma filter_transform:
  assumes "\<And>l. P l \<Longrightarrow> is_diagnostic l"
  shows "filter P (transform lines) = filter P lines"
  using assms guards_not_diagnostic
  by (auto simp: transform_wrap_where intro!: filter_wrap_where)

lemma filter_transform_funpow:
  assumes "\<And>l. P l \<Longrightarrow> is_diagnostic l"
  shows "filter P ((transform ^^ n) lines) = filter P lines"
  by (induction n) (simp_all add: filter_transform [OF assms])

section \<open>Lines and file contents\<close>

lemma readlines_not_Nil: "s \<noteq> [] \<Longrightarrow> readlines s \<noteq> []"
  by (cases s) (auto split: list.splits)

lemma readlines_append_newline:
  "readlines (a @ [NL] @ b) = readlines (a @ [NL]) @ readlines b"
proof (induction a)
  case Nil
  then show ?case by simp
next
  case (Cons c a)
  have "readlines (a @ [NL]) \<noteq> []" by (rule readlines_not_Nil) simp
  then obtain l ls where "readlines (a @ [NL]) = l # ls" by (cases "readlines (a @ [NL])") auto
  then show ?case using Cons by simp
qed

lemma readlines_one_line: "NL \<notin> set s \<Longrightarrow> readlines (s @ [NL]) = [s @ [NL]]"
  by (induction s) auto

lemma concat_readlines: "concat (readlines s) = s"
  by (induction s) (auto split: list.splits)

lemma last_line_not_wrapped: "Suc i = length lines \<Longrightarrow> \<not> is_already_wrapped lines i"
  by (simp add: is_already_wrapped_def list_ex_iff)

lemma process_loop_transform:
  "process_loop lines 0 False [] = (list_ex (needs_wrap lines) [0..<length lines], transform lines)"
  by (simp add: process_loop_eq transform_def)

section \<open>Fixed points of the transform\<close>

lemma transform_fixed:
  assumes "\<And>k. k < length Y \<Longrightarrow> \<not> needs_wrap Y k"
  shows "transform Y = Y"
  using assms by (simp add: transform_wrap_where wrap_where_fixed)

lemma lines_block_runs:
  "transform lines_block = lines_block_once" "transform lines_block_once = lines_block_twice"
  by (simp_all add: transform_emitted example_defs lines_block_once_def lines_block_twice_def
      string_defs classifier_defs)

section \<open>Checks of the model\<close>

lemma unmodified_same:
  assumes "\<not> fst (process_loop lines 0 False [])"
  shows "transform lines = lines"
proof (rule transform_fixed)
  fix k assume "k < length lines"
  then show "\<not> needs_wrap lines k"
    using assms by (auto simp: modified_iff list_ex_iff)
qed

lemma split_nl_not_Nil: "split_nl s \<noteq> []"
  by (cases s) (auto split: list.splits)

lemma join_split_nl: "join_nl (split_nl s) = s"
proof (induction s)
  case Nil
  then show ?case by simp
next
  case (Cons c s)
  obtain l ls where s: "split_nl s = l # ls"
    using split_nl_not_Nil [of s] by (cases "split_nl s") auto
  show ?case
    using Cons s by (cases ls) auto
qed

lemma scenario_wrapped_triple:
  "transform [ascii ''#if DEBUG\<newline>'', ascii ''print(a)\<newline>'', ascii ''#endif\<newline>''] =
     [ascii ''#if DEBUG\<newline>'', ascii ''print(a)\<newline>'', ascii ''#endif\<newline>'']"
  by (simp add: transform_emitted example_defs string_defs classifier_defs)

lemma scenario_two_prints:
  "transform [ascii ''print(a)\<newline>'', ascii ''let x = 1\<newline>'', ascii ''print(b)\<newline>''] =
     [ascii ''#if DEBUG\<newline>'', ascii ''print(a)\<newline>'', ascii ''#endif\<newline>'',
      ascii ''let x = 1\<newline>'',
      ascii ''#if DEBUG\<newline>'', ascii ''print(b)\<newline>'', ascii ''#endif\<newline>'']"
  by (simp add: transform_emitted example_defs string_defs classifier_defs)

section \<open>The whole run\<close>

lemma main_run:
  assumes "root_exists w"
  shows "(\<forall>p\<in>set (swift_files w). Read p \<in> set (snd (main w))) \<and>
    (\<forall>p\<in>set (swift_files w). \<forall>e. read_file w p = Inl e \<longrightarrow>
        Print (ErrorProcessing p e) \<in> set (snd (main w))) \<and>
    (\<forall>p c e. Write p c \<in> set (snd (main w)) \<and> write_fails w p = Some e \<longrightarrow>
        Print (ErrorProcessing p e) \<in> set (snd (main w))) \<and>
    (\<exists>ev n. snd (main w) = ev @ [Print (ModifiedTotal n), Print (WrappedEstimate (n * 3))] \<and>
        summary ev = [] \<and> n = length (filter is_modified ev))"
proof -
  let ?L = "main_loop (swift_files w) w []"
  let ?head = "[Rglob, Print (Processing (length (swift_files w)))]"
  let ?n = "length (fst ?L)"
  have run: "snd (main w) =
      (?head @ events_of ?L) @ [Print (ModifiedTotal ?n), Print (WrappedEstimate (?n * 3))]"
    using assms by (simp add: main_def events_of_def split: prod.splits)
  have reads: "\<forall>p\<in>set (swift_files w). Read p \<in> set (snd (main w))"
    using main_loop_reads [of _ "swift_files w" w "[]"] by (simp add: run)
  have rerr: "\<forall>p\<in>set (swift_files w). \<forall>e. read_file w p = Inl e \<longrightarrow>
        Print (ErrorProcessing p e) \<in> set (snd (main w))"
    using main_loop_read_errors [of _ "swift_files w" w _ "[]"] by (simp add: run)
  have werr: "\<forall>p c e. Write p c \<in> set (snd (main w)) \<and> write_fails w p = Some e \<longrightarrow>
        Print (ErrorProcessing p e) \<in> set (snd (main w))"
    using main_loop_write_errors [of _ _ "swift_files w" w "[]"] by (auto simp: run)
  have "summary (?head @ events_of ?L) = []"
    and "?n = length (filter is_modified (?head @ events_of ?L))"
    using main_loop_counts [of "swift_files w" w "[]"] by (simp_all add: summary_def)
  then have "\<exists>ev n. snd (main w) = ev @ [Print (ModifiedTotal n), Print (WrappedEstimate (n * 3))] \<and>
        summary ev = [] \<and> n = length (filter is_modified ev)"
    using run by blast
  then show ?thesis using reads rerr werr by blast
qed

section \<open>Runs on a file\<close>

lemma process_file_result:
  assumes "read_file w p = Inr content" and "write_fails w p = None"
  shows "fst (process_file p w) =
      Inr (list_ex (needs_wrap (readlines content)) [0..<length (readlines content)])"
    and "read_file (fs_of (process_file p w)) p = Inr (concat (transform (readlines content)))"
    and "write_fails (fs_of (process_file p w)) p = None"
proof -
  let ?lines = "readlines content"
  let ?m = "list_ex (needs_wrap ?lines) [0..<length ?lines]"
  have u: "concat (transform ?lines) = content" if "\<not> ?m"
  proof -
    have "transform ?lines = ?lines"
      by (rule unmodified_same) (simp add: modified_iff that)
    then show ?thesis by (simp add: concat_readlines)
  qed
  show "fst (process_file p w) = Inr ?m"
    using assms by (simp add: process_file_def process_loop_transform)
  show "read_file (fs_of (process_file p w)) p = Inr (concat (transform ?lines))"
    using assms u by (simp add: process_file_def process_loop_transform fs_of_def)
  show "write_fails (fs_of (process_file p w)) p = None"
    using assms by (simp add: process_file_def process_loop_transform fs_of_def)
qed

lemma second_run_result:
  assumes "read_file w p = Inr content" and "write_fails w p = None"
    and "readlines (concat (transform (readlines content))) = lines'"
  shows "fst (second_run p w) = Inr (list_ex (needs_wrap lines') [0..<length lines'])"
    and "read_file (fs_of (second_run p w)) p = Inr (concat (transform lines'))"
  using process_file_result [OF process_file_result(2,3) [OF assms(1,2)]] assms(3)
  by (simp_all add: second_run_def)

lemmas file_defs = fs_with_def fs_no_newline_def lines_no_newline_def lines_no_newline_new_def
  lines_no_newline_once_def
  lines_no_newline_twice_def lines_block2_once_def lines_block2_def

lemma lines_block_read:
  "readlines (concat lines_block) = lines_block"
  "readlines (concat lines_block_once) = lines_block_once"
  "readlines (concat lines_block_twice) = lines_block_twice"
  "readlines (concat lines_between) = lines_between"
  by (simp_all add: lines_block_def lines_block_once_def lines_block_twice_def lines_between_def
      string_defs)

lemma lines_block_modified:
  "list_ex (needs_wrap lines_block) [0..<length lines_block]"
  "list_ex (needs_wrap lines_block_once) [0..<length lines_block_once]"
  by (simp_all add: lines_block_once_def example_defs string_defs classifier_defs)

lemma no_newline_runs:
  "readlines (ascii ''let x = 1\<newline>  print(x)'') = lines_no_newline"
  "transform lines_no_newline = lines_no_newline_new"
  "readlines (concat lines_no_newline_new) = lines_no_newline_once"
  "transform lines_no_newline_once = lines_no_newline_twice"
  "list_ex (needs_wrap lines_no_newline_once) [0..<length lines_no_newline_once]"
  "readlines (concat lines_no_newline_twice) = lines_no_newline_twice"
  by (simp_all add: transform_emitted file_defs example_defs string_defs classifier_defs)

lemma lines_block2_runs:
  "split_nl (ascii ''#if DEBUG\<newline>a()\<newline>print(x)\<newline>#endif'') = lines_block2"
  "transform2 lines_block2 = lines_block2_once"
  by (simp_all add: transform2_def process_swift_loop_eq file_defs example_defs string_defs
      classifier_defs more_defs)

section \<open>The claims\<close>

text \<open>
  C1.  The claim is that a second application of the transform changes nothing.  The code
  breaks it.  \<open>lines_block\<close> is a guard block of five lines with a print statement first
  and last in it.  The first print statement stands in the block, but the close marker is
  five lines after it and the scan ahead stops after four: the first run wraps it again.
  The two lines put in move the open marker out of the five lines before the last print
  statement, and the second run wraps that one too: nine lines after one run, eleven after
  two, in memory and in the file.  And for a file that ends in a print statement without
  newline, the first run writes the close marker onto the line of the print statement
  (C10); the second run reads no close marker after it and wraps again.
\<close>

theorem second_run_wraps_again:
  "transform lines_block = lines_block_once \<and>
   transform (transform lines_block) = lines_block_twice \<and>
   transform (transform lines_block) \<noteq> transform lines_block \<and>
   readlines (concat lines_block) = lines_block \<and>
   read_file (fs_of (process_file ''A.swift'' (fs_with (concat lines_block)))) ''A.swift'' =
     Inr (concat lines_block_once) \<and>
   fst (second_run ''A.swift'' (fs_with (concat lines_block))) = Inr True \<and>
   read_file (fs_of (second_run ''A.swift'' (fs_with (concat lines_block)))) ''A.swift'' =
     Inr (concat lines_block_twice) \<and>
   read_file (fs_of (process_file ''A.swift'' fs_no_newline)) ''A.swift'' =
     Inr (concat lines_no_newline_new) \<and>
   readlines (concat lines_no_newline_new) = lines_no_newline_once \<and>
   fst (second_run ''A.swift'' fs_no_newline) = Inr True \<and>
   read_file (fs_of (second_run ''A.swift'' fs_no_newline)) ''A.swift'' =
     Inr (concat lines_no_newline_twice)"
proof -
  let ?w = "fs_with (concat lines_block)"
  have w: "read_file ?w ''A.swift'' = Inr (concat lines_block)" "write_fails ?w ''A.swift'' = None"
    by (simp_all add: fs_with_def)
  have n: "read_file fs_no_newline ''A.swift'' = Inr (ascii ''let x = 1\<newline>  print(x)'')"
    "write_fails fs_no_newline ''A.swift'' = None"
    by (simp_all add: fs_no_newline_def)
  have d: "lines_block_twice \<noteq> lines_block_once"
    by (simp add: lines_block_once_def lines_block_twice_def)
  have 1: "read_file (fs_of (process_file ''A.swift'' ?w)) ''A.swift'' = Inr (concat lines_block_once)"
    using process_file_result(2) [OF w] by (simp add: lines_block_read lines_block_runs)
  have 2: "fst (second_run ''A.swift'' ?w) = Inr True"
    "read_file (fs_of (second_run ''A.swift'' ?w)) ''A.swift'' = Inr (concat lines_block_twice)"
    using second_run_result [OF w, of lines_block_once]
    by (simp_all add: lines_block_read lines_block_runs lines_block_modified)
  have 3: "read_file (fs_of (process_file ''A.swift'' fs_no_newline)) ''A.swift'' =
      Inr (concat lines_no_newline_new)"
    using process_file_result(2) [OF n] by (simp only: no_newline_runs(1,2))
  have 4: "fst (second_run ''A.swift'' fs_no_newline) = Inr True"
    "read_file (fs_of (second_run ''A.swift'' fs_no_newline)) ''A.swift'' =
      Inr (concat lines_no_newline_twice)"
    using second_run_result [OF n, of lines_no_newline_once]
    by (simp_all only: no_newline_runs simp_thms)
  show ?thesis
    using d 1 2 3 4 by (simp add: lines_block_runs lines_block_read no_newline_runs(3))
qed

text \<open>
  C2.  After any number \<open>n\<close> of runs, the next run emits every diagnostic line that has an
  exemption pattern as it is, with the output for the lines before it in front and the
  output for the lines after it behind, so with no guard pair of its own; and the exempt
  lines of the file after \<open>n\<close> runs are those of the input, unchanged and in their order.
\<close>

theorem exempt_never_wrapped:
  assumes "Y = (transform ^^ n) X" and "k < length Y"
    and "is_diagnostic (Y ! k)" and "should_keep_in_production (Y ! k)"
  shows "transform Y = before Y k @ [Y ! k] @ after Y k \<and>
    filter exempt Y = filter exempt X"
proof -
  have "\<not> needs_wrap Y k"
    using assms(4) by (simp add: needs_wrap_def)
  then have "transform Y = before Y k @ [Y ! k] @ after Y k"
    using transform_split [OF assms(2)] by (simp add: emitted_def chunk_def)
  moreover have "filter exempt Y = filter exempt X"
    unfolding assms(1) by (rule filter_transform_funpow) (simp add: exempt_def)
  ultimately show ?thesis by simp
qed

theorem exempt_never_wrapped_witness:
  "(transform ^^ 2) lines_exempt = lines_exempt_out \<and>
   transform ((transform ^^ 2) lines_exempt) = (transform ^^ 2) lines_exempt \<and>
   filter exempt ((transform ^^ 2) lines_exempt) = [ascii ''  print(CRITICAL)\<newline>'']"
proof -
  have 1: "transform lines_exempt = lines_exempt_out"
    by (simp add: transform_emitted lines_exempt_def lines_exempt_out_def example_defs
        string_defs classifier_defs)
  have 2: "transform lines_exempt_out = lines_exempt_out"
    by (simp add: transform_emitted lines_exempt_out_def example_defs string_defs
        classifier_defs)
  have Y: "(transform ^^ 2) lines_exempt = lines_exempt_out"
    by (simp add: numeral_2_eq_2 1 2)
  have a: "3 < length lines_exempt_out" "is_diagnostic (lines_exempt_out ! 3)"
    "should_keep_in_production (lines_exempt_out ! 3)"
    by (simp_all add: lines_exempt_out_def string_defs classifier_defs)
  from exempt_never_wrapped [OF Y [symmetric] a]
  have "filter exempt lines_exempt_out = filter exempt lines_exempt"
    by simp
  then have "filter exempt lines_exempt_out = [ascii ''  print(CRITICAL)\<newline>'']"
    by (simp add: lines_exempt_def exempt_def string_defs classifier_defs)
  then show ?thesis using Y 2 by simp
qed

text \<open>
  C3.  The output of the transform is the input with guard lines put in between: an
  interleaving of the input lines, unchanged and in their order, with the inserted lines,
  each of which is a guard marker behind spaces.  So the lines that are no diagnostic calls
  are, after the transform, those of the input in their order with the inserted guard lines
  among them, and the diagnostic lines are the same before and after.
\<close>

theorem only_guards_inserted:
  "transform lines \<in> shuffles lines (inserted lines) \<and>
   list_all is_guard_line (inserted lines) \<and>
   filter (\<lambda>l. \<not> is_diagnostic l) (transform lines) \<in>
     shuffles (filter (\<lambda>l. \<not> is_diagnostic l) lines) (inserted lines) \<and>
   filter is_diagnostic (transform lines) = filter is_diagnostic lines"
proof -
  have "filter (\<lambda>l. \<not> is_diagnostic l) (transform lines) \<in>
      shuffles (filter (\<lambda>l. \<not> is_diagnostic l) lines)
        (filter (\<lambda>l. \<not> is_diagnostic l) (inserted lines))"
    using transform_shuffles [of lines] filter_shuffles [of "\<lambda>l. \<not> is_diagnostic l" lines "inserted lines"]
    by blast
  then show ?thesis
    by (simp add: inserted_not_diagnostic transform_shuffles inserted_guard_lines filter_transform)
qed

theorem only_guards_inserted_witness:
  "transform lines_exempt \<in>
     shuffles lines_exempt [ascii ''#if DEBUG\<newline>'', ascii ''#endif\<newline>''] \<and>
   filter (\<lambda>l. \<not> is_diagnostic l) (transform lines_exempt) \<in>
     shuffles [ascii ''let x = 1\<newline>'', ascii ''// print(c)\<newline>'']
       [ascii ''#if DEBUG\<newline>'', ascii ''#endif\<newline>''] \<and>
   filter is_diagnostic (transform lines_exempt) =
     [ascii ''print(a)\<newline>'', ascii ''  print(CRITICAL)\<newline>'']"
proof -
  have i: "inserted lines_exempt = [ascii ''#if DEBUG\<newline>'', ascii ''#endif\<newline>'']"
    by (simp add: inserted_def lines_exempt_def example_defs string_defs classifier_defs)
  have f: "filter (\<lambda>l. \<not> is_diagnostic l) lines_exempt =
      [ascii ''let x = 1\<newline>'', ascii ''// print(c)\<newline>'']"
    "filter is_diagnostic lines_exempt = [ascii ''print(a)\<newline>'', ascii ''  print(CRITICAL)\<newline>'']"
    by (simp_all add: lines_exempt_def string_defs classifier_defs)
  from only_guards_inserted [of lines_exempt] show ?thesis
    unfolding i f by simp
qed

text \<open>
  C4.  The claim is that a diagnostic line with another diagnostic line between it and
  the markers found is unwrapped and receives a guard pair.  The code breaks it:
  \<open>is_already_wrapped\<close> looks for an open marker behind and a close marker ahead and never
  asks whether they enclose the line.  The print statement in the middle of
  \<open>lines_between\<close> stands in no guard pair, between two guarded print statements; it is
  found wrapped, the file is left as it is, and the statement stays in a production build.
\<close>

theorem unguarded_print_left_alone:
  "is_diagnostic (lines_between ! 3) \<and>
   \<not> should_keep_in_production (lines_between ! 3) \<and>
   nesting lines_between 3 = 0 \<and>
   \<not> spec_wrapped lines_between 3 \<and>
   is_already_wrapped lines_between 3 \<and>
   transform lines_between = lines_between \<and>
   process_file ''A.swift'' (fs_with (concat lines_between)) =
     (Inr False, fs_with (concat lines_between), [Read ''A.swift''])"
proof -
  have t: "transform lines_between = lines_between"
    by (simp add: transform_emitted example_defs string_defs classifier_defs)
  have m: "\<not> list_ex (needs_wrap lines_between) [0..<length lines_between]"
    by (simp add: example_defs string_defs classifier_defs)
  have p: "process_file ''A.swift'' (fs_with (concat lines_between)) =
     (Inr False, fs_with (concat lines_between), [Read ''A.swift''])"
    using m by (simp add: process_file_def process_loop_transform fs_with_def lines_block_read)
  have "is_diagnostic (lines_between ! 3) \<and>
   \<not> should_keep_in_production (lines_between ! 3) \<and>
   nesting lines_between 3 = 0 \<and>
   \<not> spec_wrapped lines_between 3 \<and>
   is_already_wrapped lines_between 3"
    by (simp add: nesting_def example_defs spec_wrapped_def string_defs classifier_defs)
  then show ?thesis using t p by simp
qed

text \<open>
  C5.  The claim is that no diagnostic line ever stands in more than one guard pair.  The
  code breaks it.  In \<open>lines_block\<close> the first print statement stands in one guard pair,
  whose close marker is five lines ahead; \<open>process_file\<close> scans four lines ahead, does not
  find it wrapped and puts a second pair around it.  For the file without guard markers
  that ends in a print statement without newline, two runs of \<open>process_file\<close> leave the
  print statement behind two open markers.  \<open>process_swift_file\<close> looks at the line just
  before a print statement only, and puts a second pair around the print statement of
  \<open>lines_block2\<close>.
\<close>

theorem print_wrapped_twice:
  "is_diagnostic (lines_block ! 1) \<and> nesting lines_block 1 = 1 \<and>
   transform lines_block ! 2 = lines_block ! 1 \<and> nesting (transform lines_block) 2 = 2 \<and>
   readlines (ascii ''let x = 1\<newline>  print(x)'') = lines_no_newline \<and>
   read_file (fs_of (second_run ''A.swift'' fs_no_newline)) ''A.swift'' =
     Inr (concat lines_no_newline_twice) \<and>
   readlines (concat lines_no_newline_twice) = lines_no_newline_twice \<and>
   is_diagnostic (lines_no_newline_twice ! 3) \<and> nesting lines_no_newline_twice 3 = 2 \<and>
   split_nl (ascii ''#if DEBUG\<newline>a()\<newline>print(x)\<newline>#endif'') = lines_block2 \<and>
   is_diagnostic (lines_block2 ! 2) \<and> nesting lines_block2 2 = 1 \<and>
   transform2 lines_block2 ! 3 = lines_block2 ! 2 \<and> nesting (transform2 lines_block2) 3 = 2"
proof -
  have n: "read_file fs_no_newline ''A.swift'' = Inr (ascii ''let x = 1\<newline>  print(x)'')"
    "write_fails fs_no_newline ''A.swift'' = None"
    by (simp_all add: fs_no_newline_def)
  have 1: "read_file (fs_of (second_run ''A.swift'' fs_no_newline)) ''A.swift'' =
      Inr (concat lines_no_newline_twice)"
    using second_run_result(2) [OF n, of lines_no_newline_once]
    by (simp only: no_newline_runs simp_thms)
  have 2: "is_diagnostic (lines_block ! 1) \<and> nesting lines_block 1 = 1 \<and>
      lines_block_once ! 2 = lines_block ! 1 \<and> nesting lines_block_once 2 = 2"
    by (simp add: nesting_def lines_block_once_def example_defs string_defs classifier_defs)
  have 3: "is_diagnostic (lines_no_newline_twice ! 3) \<and> nesting lines_no_newline_twice 3 = 2"
    by (simp add: nesting_def file_defs string_defs classifier_defs)
  have 4: "is_diagnostic (lines_block2 ! 2) \<and> nesting lines_block2 2 = 1 \<and>
      lines_block2_once ! 3 = lines_block2 ! 2 \<and> nesting lines_block2_once 3 = 2"
    by (simp add: nesting_def file_defs string_defs classifier_defs)
  show ?thesis
    using 1 2 3 4 by (simp add: lines_block_runs lines_block2_runs no_newline_runs)
qed

text \<open>
  C6, as the code has it.  For a line that gets a guard pair, by \<open>process_file\<close> or by
  \<open>process_swift_file\<close>, the two inserted lines are the marker behind as many space
  characters as the line has leading whitespace characters.  Their indentation is those
  spaces, and it is the indentation of the line, character for character, when that
  consists of spaces only.
\<close>

theorem guards_indented_by_spaces:
  assumes "i < length lines" and "n = length (indentation (lines ! i))"
  shows
   "(needs_wrap lines i \<longrightarrow>
       transform lines =
         before lines i @
         [replicate n SPACE @ IF_DEBUG @ [NL], lines ! i, replicate n SPACE @ ENDIF @ [NL]] @
         after lines i) \<and>
    (needs_wrap2 lines i \<longrightarrow>
       transform2 lines =
         before2 lines i @
         [replicate n SPACE @ IF_DEBUG, lines ! i, replicate n SPACE @ ENDIF] @
         after2 lines i) \<and>
    indentation (replicate n SPACE @ IF_DEBUG @ [NL]) = replicate n SPACE \<and>
    indentation (replicate n SPACE @ ENDIF @ [NL]) = replicate n SPACE \<and>
    indentation (replicate n SPACE @ IF_DEBUG) = replicate n SPACE \<and>
    indentation (replicate n SPACE @ ENDIF) = replicate n SPACE \<and>
    (set (indentation (lines ! i)) \<subseteq> {SPACE} \<longrightarrow>
       replicate n SPACE = indentation (lines ! i))"
proof -
  have n: "indent_of (lines ! i) = n"
    using assms(2) by (simp add: indent_of_takeWhile indentation_def)
  have 1: "needs_wrap lines i \<longrightarrow>
       transform lines =
         before lines i @
         [replicate n SPACE @ IF_DEBUG @ [NL], lines ! i, replicate n SPACE @ ENDIF @ [NL]] @
         after lines i"
    using transform_split [OF assms(1)]
    by (simp add: emitted_def chunk_def open_guard_def close_guard_def n)
  have 2: "needs_wrap2 lines i \<longrightarrow>
       transform2 lines =
         before2 lines i @
         [replicate n SPACE @ IF_DEBUG, lines ! i, replicate n SPACE @ ENDIF] @
         after2 lines i"
    using transform2_split [OF assms(1)]
    by (simp add: emitted2_def chunk_def open_guard2_def close_guard2_def n)
  have 3: "indentation (replicate n SPACE @ IF_DEBUG @ [NL]) = replicate n SPACE"
    "indentation (replicate n SPACE @ ENDIF @ [NL]) = replicate n SPACE"
    "indentation (replicate n SPACE @ IF_DEBUG) = replicate n SPACE"
    "indentation (replicate n SPACE @ ENDIF) = replicate n SPACE"
    using guard_indentation [of "lines ! i"]
    by (simp_all add: open_guard_def close_guard_def open_guard2_def close_guard2_def n assms(2))
  have 4: "set (indentation (lines ! i)) \<subseteq> {SPACE} \<longrightarrow>
       replicate n SPACE = indentation (lines ! i)"
    using replicate_all_same [of "indentation (lines ! i)" SPACE] assms(2) by simp
  from 1 2 3 4 show ?thesis by blast
qed

theorem guards_indented_by_spaces_witness:
  "transform [ascii ''  print(x)\<newline>''] =
     [ascii ''  #if DEBUG\<newline>'', ascii ''  print(x)\<newline>'', ascii ''  #endif\<newline>''] \<and>
   transform2 [ascii ''  print(x)''] =
     [ascii ''  #if DEBUG'', ascii ''  print(x)'', ascii ''  #endif''] \<and>
   indentation (ascii ''  #if DEBUG\<newline>'') = indentation (ascii ''  print(x)\<newline>'')"
proof -
  let ?l = "ascii ''  print(x)\<newline>''" and ?m = "ascii ''  print(x)''"
  have a: "0 < length [?l]" "2 = length (indentation ([?l] ! 0))" "needs_wrap [?l] 0"
    "set (indentation ([?l] ! 0)) \<subseteq> {SPACE}"
    by (simp_all add: string_defs classifier_defs more_defs)
  have b: "0 < length [?m]" "2 = length (indentation ([?m] ! 0))" "needs_wrap2 [?m] 0"
    by (simp_all add: string_defs classifier_defs more_defs)
  from guards_indented_by_spaces [OF a(1,2)] a(3,4)
  have "transform [?l] = before [?l] 0 @
         [replicate 2 SPACE @ IF_DEBUG @ [NL], [?l] ! 0, replicate 2 SPACE @ ENDIF @ [NL]] @
         after [?l] 0"
    and "indentation (replicate 2 SPACE @ IF_DEBUG @ [NL]) = indentation ([?l] ! 0)"
    by metis+
  moreover from guards_indented_by_spaces [OF b(1,2)] b(3)
  have "transform2 [?m] = before2 [?m] 0 @
         [replicate 2 SPACE @ IF_DEBUG, [?m] ! 0, replicate 2 SPACE @ ENDIF] @ after2 [?m] 0"
    by metis
  ultimately show ?thesis
    by (simp add: string_defs more_defs replicate_numeral_Cons)
qed

text \<open>
  C6 as stated fails on a line indented by a tab: the guard lines are indented by a space.
\<close>

theorem tab_indentation_counterexample:
  "transform [tab_line] = [32 # ascii ''#if DEBUG\<newline>'', tab_line, 32 # ascii ''#endif\<newline>''] \<and>
   indentation tab_line = [9] \<and>
   indentation (32 # ascii ''#if DEBUG\<newline>'') = [32] \<and>
   indentation (32 # ascii ''#endif\<newline>'') = [32]"
  by (simp add: transform_emitted string_defs classifier_defs more_defs)

text \<open>
  C7.  For the input that is the single line \<open>    print("hello")\<close> (four spaces of
  indentation, no guard marker near, no exemption pattern), with its newline or as a last
  line without one, the transform gives exactly three lines: the open marker behind four
  spaces, the line itself unchanged, the close marker behind four spaces.
\<close>

theorem scenario_single_print:
  \<open>transform [ascii ''    print("hello")\<newline>''] =
     [replicate 4 SPACE @ IF_DEBUG @ [NL], ascii ''    print("hello")\<newline>'',
      replicate 4 SPACE @ ENDIF @ [NL]] \<and>
   transform [ascii ''    print("hello")''] =
     [replicate 4 SPACE @ IF_DEBUG @ [NL], ascii ''    print("hello")'',
      replicate 4 SPACE @ ENDIF @ [NL]]\<close>
  by (simp add: transform_emitted string_defs classifier_defs replicate_numeral_Cons)

text \<open>
  C8.  When the root directory does not exist, \<open>main\<close> of either script prints the
  failure and returns: the only event is that line on the console, so the tree is not
  enumerated and no file is read or written, and the file system is as it was.
\<close>

theorem missing_root_aborts:
  assumes "\<not> root_exists w"
  shows "main w = (w, [Print NotFound]) \<and> main2 w = (None, w, [Print NotFound])"
  using assms by (simp add: main_def main2_def)

theorem missing_root_aborts_witness:
  "main fs0 = (fs0, [Print NotFound]) \<and> main2 fs0 = (None, fs0, [Print NotFound])"
proof -
  have "\<not> root_exists fs0" by (simp add: fs0_def)
  from missing_root_aborts [OF this] show ?thesis .
qed

text \<open>
  C9, as the code has it.  When the root directory exists, \<open>main\<close> of
  \<open>wrap_prints.py\<close> tries to read every file of the enumeration, whatever happened to the
  files before it; a file whose reading raises, and a file whose writing raises, is reported
  with its path and the exception; and the run ends with the two summary lines, which give
  the number of files modified and three times that number, and nothing else.  When the
  root directory does not exist, no summary is printed.
\<close>

theorem per_file_errors_isolated:
  "(root_exists w \<longrightarrow>
      (\<forall>p\<in>set (swift_files w). Read p \<in> set (snd (main w))) \<and>
      (\<forall>p\<in>set (swift_files w). \<forall>e. read_file w p = Inl e \<longrightarrow>
          Print (ErrorProcessing p e) \<in> set (snd (main w))) \<and>
      (\<forall>p c e. Write p c \<in> set (snd (main w)) \<and> write_fails w p = Some e \<longrightarrow>
          Print (ErrorProcessing p e) \<in> set (snd (main w))) \<and>
      (\<exists>ev n. snd (main w) = ev @ [Print (ModifiedTotal n), Print (WrappedEstimate (n * 3))] \<and>
          summary ev = [] \<and> n = length (filter is_modified ev))) \<and>
   (\<not> root_exists w \<longrightarrow> summary (snd (main w)) = [])"
proof (intro conjI impI)
  assume "\<not> root_exists w"
  then show "summary (snd (main w)) = []"
    by (simp add: main_def summary_def)
qed (use main_run [of w] in blast)+

theorem per_file_errors_isolated_witness:
  "root_exists fs_mixed \<and>
   Read ''C.swift'' \<in> set (snd (main fs_mixed)) \<and>
   Print (ErrorProcessing ''A.swift'' UnicodeDecodeError) \<in> set (snd (main fs_mixed)) \<and>
   Print (ErrorProcessing ''D.swift'' OSError) \<in> set (snd (main fs_mixed)) \<and>
   (\<exists>ev n. snd (main fs_mixed) =
        ev @ [Print (ModifiedTotal n), Print (WrappedEstimate (n * 3))] \<and>
        summary ev = [] \<and> n = length (filter is_modified ev))"
proof -
  have r: "root_exists fs_mixed" by (simp add: fs_mixed_def)
  have f: "set (swift_files fs_mixed) = {''A.swift'', ''B.swift'', ''C.swift'', ''D.swift''}"
    "read_file fs_mixed ''A.swift'' = Inl UnicodeDecodeError"
    "write_fails fs_mixed ''D.swift'' = Some OSError"
    by (simp_all add: fs_mixed_def)
  have w: "Write ''D.swift'' (ascii ''#if DEBUG\<newline>print(x)\<newline>#endif\<newline>'')
      \<in> set (snd (main fs_mixed))"
    by (simp add: main_fs_mixed)
  from per_file_errors_isolated [of fs_mixed] r f w show ?thesis
    by blast
qed

text \<open>
  C9 as stated fails: a run whose only file failed and a run whose only file needed no
  change print the same summary; and without the root directory no summary is printed.
\<close>

theorem summary_blind_counterexample:
  "summary (snd (main fs_failing)) = summary (snd (main fs_plain)) \<and>
   filter is_failure (snd (main fs_failing)) =
     [Print (ErrorProcessing ''A.swift'' UnicodeDecodeError)] \<and>
   filter is_failure (snd (main fs_plain)) = [] \<and>
   summary (snd (main fs0)) = []"
  by (simp add: fs_failing_def fs_plain_def fs0_def run_defs string_defs classifier_defs)

text \<open>
  C10.  Let the last line \<open>d\<close> of a file be a diagnostic call that is not exempt and has
  no newline (a last line is never found wrapped: no line follows it).  Then
  \<open>process_file\<close> rewrites the file, and the new content ends with the open guard line, then
  \<open>d\<close>, then at once the spaces of the indentation, \<open>#endif\<close> and a newline: read again, the
  last line of the file is \<open>d\<close> with the close marker on the same line.
\<close>

theorem close_marker_joins_last_line:
  assumes "read_file w p = Inr content" and "write_fails w p = None"
    and "readlines content = ls @ [d]"
    and "is_diagnostic d" and "\<not> should_keep_in_production d" and "NL \<notin> set d"
  shows "\<exists>pre. read_file (fs_of (process_file p w)) p =
        Inr (pre @ open_guard d @ d @ replicate (indent_of d) SPACE @ ENDIF @ [NL]) \<and>
      last (readlines (pre @ open_guard d @ d @ replicate (indent_of d) SPACE @ ENDIF @ [NL])) =
        d @ replicate (indent_of d) SPACE @ ENDIF @ [NL]"
proof -
  let ?lines = "ls @ [d]" and ?k = "length ls"
  let ?tail = "d @ replicate (indent_of d) SPACE @ ENDIF @ [NL]"
  let ?pre = "concat (before ?lines ?k)"
  have k: "?k < length ?lines" "?lines ! ?k = d" "Suc ?k = length ?lines" by simp_all
  have nw: "needs_wrap ?lines ?k"
    using assms(4,5) last_line_not_wrapped [OF k(3)] by (simp add: needs_wrap_def)
  then have m: "list_ex (needs_wrap ?lines) [0..<length ?lines]"
    by (auto simp: list_ex_iff)
  have "transform ?lines = before ?lines ?k @ [open_guard d, d, close_guard d]"
    using transform_split [OF k(1)] nw by (simp add: emitted_def chunk_def after_def)
  then have c: "concat (transform ?lines) = ?pre @ open_guard d @ ?tail"
    by (simp add: close_guard_def)
  have "process_file p w =
      (Inr True, w\<lparr>read_file := (read_file w)(p := Inr (concat (transform ?lines)))\<rparr>,
       [Read p, Write p (concat (transform ?lines))])"
    using assms(1,2,3) m by (simp add: process_file_def process_loop_transform)
  then have 1: "read_file (fs_of (process_file p w)) p = Inr (?pre @ open_guard d @ ?tail)"
    by (simp add: fs_of_def c)
  have "NL \<notin> set (d @ replicate (indent_of d) SPACE @ ENDIF)"
    using assms(6) by (auto simp: string_defs)
  from readlines_one_line [OF this] have t: "readlines ?tail = [?tail]" by simp
  have "?pre @ open_guard d @ ?tail =
      (?pre @ replicate (indent_of d) SPACE @ IF_DEBUG) @ [NL] @ ?tail"
    by (simp add: open_guard_def)
  then have "readlines (?pre @ open_guard d @ ?tail) =
      readlines ((?pre @ replicate (indent_of d) SPACE @ IF_DEBUG) @ [NL]) @ [?tail]"
    by (simp only: readlines_append_newline t)
  then have 2: "last (readlines (?pre @ open_guard d @ ?tail)) = ?tail" by simp
  from 1 2 show ?thesis by blast
qed

theorem close_marker_joins_last_line_witness:
  "read_file (fs_of (process_file ''A.swift'' fs_no_newline)) ''A.swift'' =
     Inr (ascii ''let x = 1\<newline>  #if DEBUG\<newline>  print(x)  #endif\<newline>'') \<and>
   last (readlines (ascii ''let x = 1\<newline>  #if DEBUG\<newline>  print(x)  #endif\<newline>'')) =
     ascii ''  print(x)  #endif\<newline>''"
proof -
  let ?d = "ascii ''  print(x)''"
  have a: "read_file fs_no_newline ''A.swift'' = Inr (ascii ''let x = 1\<newline>  print(x)'')"
    "write_fails fs_no_newline ''A.swift'' = None"
    "readlines (ascii ''let x = 1\<newline>  print(x)'') = [ascii ''let x = 1\<newline>''] @ [?d]"
    "is_diagnostic ?d" "\<not> should_keep_in_production ?d" "NL \<notin> set ?d"
    by (simp_all add: fs_no_newline_def string_defs classifier_defs)
  have r: "read_file (fs_of (process_file ''A.swift'' fs_no_newline)) ''A.swift'' =
     Inr (ascii ''let x = 1\<newline>  #if DEBUG\<newline>  print(x)  #endif\<newline>'')"
    by (simp add: fs_no_newline_def run_defs example_defs string_defs classifier_defs)
  from close_marker_joins_last_line [OF a] obtain pre where
    "read_file (fs_of (process_file ''A.swift'' fs_no_newline)) ''A.swift'' =
        Inr (pre @ open_guard ?d @ ?d @ replicate (indent_of ?d) SPACE @ ENDIF @ [NL])"
    "last (readlines (pre @ open_guard ?d @ ?d @ replicate (indent_of ?d) SPACE @ ENDIF @ [NL])) =
        ?d @ replicate (indent_of ?d) SPACE @ ENDIF @ [NL]"
    by blast
  then have "last (readlines (ascii ''let x = 1\<newline>  #if DEBUG\<newline>  print(x)  #endif\<newline>'')) =
      ?d @ replicate (indent_of ?d) SPACE @ ENDIF @ [NL]"
    using r by simp
  then show ?thesis
    using r by (simp add: string_defs classifier_defs)
qed

end
